theory Spec2Isabelle
  imports Main "HOL-Library.Sublist"
begin

section \<open>Reserved names of class Constructor (constructor.py, lines 22-26)\<close>

definition START_STATE_NAME :: string where
  "START_STATE_NAME = ''__start__''"

definition FREE_TEXT_TRIGGER :: string where
  "FREE_TEXT_TRIGGER = ''__free_text__''"

definition PHOTO_TRIGGER :: string where
  "PHOTO_TRIGGER = ''__photo_trigger__''"

definition LOCATION_TRIGGER :: string where
  "LOCATION_TRIGGER = ''__location_trigger__''"

definition PASSING_TRIGGER :: string where
  "PASSING_TRIGGER = ''__passing_trigger__''"

section \<open>Exceptions and results\<close>

text \<open>
  Every exception that can leave \<open>__handler\<close> is a value. \<open>ValueError_matched\<close> is the
  \<open>ValueError\<close> of constructor.py line 85; it carries the two values formatted into its
  message, the proposed trigger and the list \<open>matched_triggers\<close>. The other constructors
  are raised by the collaborators: \<open>AttributeError\<close> (an attribute or an event name that
  does not exist), \<open>TypeError\<close> (a constructor called without its required arguments),
  \<open>ValueError_unregistered\<close> (the state machine is asked for a state it does not hold),
  \<open>MachineError\<close> (an event is triggered from a state it has no transition from), and
  \<open>RecursionError\<close> (the interpreter's bound on nested calls).
\<close>

datatype error =
    AttributeError string
  | TypeError
  | ValueError_matched string "string list"
  | ValueError_unregistered string
  | MachineError string string
  | RecursionError

text \<open>
  A computation on a mutable object either returns or raises; in both cases the object is
  left in some state, which the result carries.
\<close>

datatype 'a result = Done 'a | Raised error 'a

fun world :: "'a result \<Rightarrow> 'a" where
  "world (Done w) = w"
| "world (Raised e w) = w"

section \<open>User rows and the persistence adapter (db_adapter.py)\<close>

text \<open>
  Class \<open>User\<close> (lines 9-32). A column holds a value or \<open>None\<close>. The primary key \<open>id\<close>
  is called \<open>user_id\<close> here.
\<close>

record User =
  user_id :: int
  state :: "string option"
  first_name :: "string option"
  last_name :: "string option"
  name :: "string option"
  username :: "string option"
  created_at :: "int option"

text \<open>The \<open>effective_user\<close> of an inbound update: the fields \<open>get_user\<close> reads.\<close>

record EffUser =
  eff_id :: int
  eff_first_name :: "string option"
  eff_last_name :: "string option"
  eff_name :: "string option"
  eff_username :: "string option"

text \<open>
  \<open>DbAdapter.user_class\<close> is either the class \<open>User\<close> of this module, whose
  \<open>__init__\<close> (line 25) has six required parameters, or a class handed to
  \<open>DbAdapter.__init__\<close>; of the latter only the instance that its constructor builds when
  called without arguments matters.
\<close>

datatype user_class = Original_User | Custom_User User

text \<open>\<open>self.user_class()\<close>, line 70: a call without arguments.\<close>

definition new_instance :: "user_class \<Rightarrow> error + User" where
  "new_instance cls = (case cls of Original_User \<Rightarrow> Inl TypeError | Custom_User u \<Rightarrow> Inr u)"

text \<open>
  An ORM session, as far as the adapter uses it: the instances that were added and are
  written by the next commit. An instance loaded by a query is clean and not among them.
\<close>

record Session =
  pending :: "User list"

text \<open>
  The adapter object. \<open>Session_attr\<close> tells whether the attribute \<open>self.Session\<close>, which
  \<open>get_user\<close> and \<open>commit_user\<close> call, exists on the object: \<open>DbAdapter.__init__\<close>
  (lines 52-57) binds \<open>self.session\<close> and \<open>self.engine\<close> only, so on a plain
  \<open>DbAdapter\<close> it does not. \<open>table\<close> is the content of the user table, one row per
  primary key; \<open>writes\<close> records, in order, every row a commit has written.
\<close>

record DbAdapter =
  Session_attr :: bool
  user_class :: user_class
  table :: "User list"
  writes :: "User list"

definition Session_add :: "Session \<Rightarrow> User \<Rightarrow> Session" where
  "Session_add session user = session\<lparr>pending := pending session @ [user]\<rparr>"

definition Session_expunge :: "Session \<Rightarrow> User \<Rightarrow> Session" where
  "Session_expunge session user = session\<lparr>pending := removeAll user (pending session)\<rparr>"

text \<open>\<open>session.query(user_class).filter(user_class.id == user_id).one_or_none()\<close>\<close>

definition query_one :: "DbAdapter \<Rightarrow> int \<Rightarrow> User option" where
  "query_one db k = find (\<lambda>row. user_id row = k) (table db)"

text \<open>Writing one row: an UPDATE of the row with this primary key, or an INSERT.\<close>

definition upsert :: "User \<Rightarrow> User list \<Rightarrow> User list" where
  "upsert user rows =
     (if user_id user \<in> set (map user_id rows)
      then map (\<lambda>row. if user_id row = user_id user then user else row) rows
      else rows @ [user])"

definition flush :: "User \<Rightarrow> DbAdapter \<Rightarrow> DbAdapter" where
  "flush user db = db\<lparr>table := upsert user (table db), writes := writes db @ [user]\<rparr>"

definition Session_commit :: "DbAdapter \<Rightarrow> Session \<Rightarrow> DbAdapter" where
  "Session_commit db session = fold flush (pending session) db"

text \<open>
  \<open>DbAdapter.get_user\<close> (lines 59-80). \<open>now\<close> is the value of
  \<open>int(datetime.timestamp(datetime.now()))\<close> at the call.
\<close>

definition get_user :: "DbAdapter \<Rightarrow> EffUser \<Rightarrow> int \<Rightarrow> error + (User \<times> DbAdapter)" where
  "get_user db eff_user now =
     (if Session_attr db then
        (let session = \<lparr>pending = []\<rparr> in
         case query_one db (eff_id eff_user) of
           None \<Rightarrow>
             (case new_instance (user_class db) of
                Inl e \<Rightarrow> Inl e
              | Inr fresh \<Rightarrow>
                  (let user = fresh\<lparr>user_id := eff_id eff_user,
                                    first_name := eff_first_name eff_user,
                                    last_name := eff_last_name eff_user,
                                    name := eff_name eff_user,
                                    username := eff_username eff_user,
                                    created_at := Some now\<rparr>;
                       session = Session_add session user;
                       session = Session_expunge session user
                   in Inr (user, Session_commit db session)))
         | Some user \<Rightarrow>
             (let session = Session_expunge session user
              in Inr (user, Session_commit db session)))
      else Inl (AttributeError ''Session''))"

text \<open>\<open>DbAdapter.commit_user\<close> (lines 82-92).\<close>

definition commit_user :: "DbAdapter \<Rightarrow> User \<Rightarrow> error + DbAdapter" where
  "commit_user db user =
     (if Session_attr db then
        (let session = \<lparr>pending = []\<rparr>;
             session = Session_add session user
         in Inr (Session_commit db session))
      else Inl (AttributeError ''Session''))"

section \<open>The state machine runtime (package transitions)\<close>

text \<open>
  \<open>Machine\<close> and \<open>State\<close> come from the package \<open>transitions\<close>, a dependency of the
  repository. This section models the part of the package that \<open>__handler\<close> calls, for
  the one way the repository builds a machine (constructor.py lines 67-72): only
  \<open>model\<close>, \<open>states\<close>, \<open>initial\<close> and \<open>transitions\<close> are passed, so every other option
  has its default: automatic transitions \<open>to_<state>\<close> are generated, and an event that
  has no transition from the current state is an error, not ignored.

  A callback receives the \<open>Constructor\<close>; it is modelled by what it does to the bound
  user record, and a condition by what it reads there. Callbacks are taken to return
  normally.
\<close>

type_synonym callback = "User \<Rightarrow> User"
type_synonym condition = "User \<Rightarrow> bool"

record State =
  state_name :: string
  on_enter :: "callback list"
  on_exit :: "callback list"

text \<open>
  A transition descriptor: the dictionary \<open>add_transition\<close> stores (line 141), and the
  keyword arguments of \<open>Machine.add_transition\<close>. An absent list (\<open>None\<close>) is the empty
  list.
\<close>

record Transition =
  trigger :: string
  source :: string
  dest :: string
  conditions :: "condition list"
  unless :: "condition list"
  before :: "callback list"
  after :: "callback list"
  prepare :: "callback list"

text \<open>
  \<open>registered\<close> is the ordered dictionary \<open>Machine.states\<close>, \<open>events\<close> the dictionary
  \<open>Machine.events\<close>: for every event name the transitions added to it, in order, each
  with one source state.
\<close>

record Machine =
  registered :: "State list"
  events :: "(string \<times> Transition list) list"

definition state_names :: "Machine \<Rightarrow> string list" where
  "state_names m = map state_name (registered m)"

text \<open>\<open>Machine.get_state\<close>; \<open>None\<close> stands for its \<open>ValueError\<close>.\<close>

definition get_state :: "Machine \<Rightarrow> string \<Rightarrow> State option" where
  "get_state m n = find (\<lambda>st. state_name st = n) (registered m)"

text \<open>\<open>self.states[state.name] = state\<close>: a known key keeps its place.\<close>

fun dict_set_state :: "State \<Rightarrow> State list \<Rightarrow> State list" where
  "dict_set_state st [] = [st]"
| "dict_set_state st (x # xs) =
     (if state_name x = state_name st then st # xs else x # dict_set_state st xs)"

text \<open>\<open>if trigger not in self.events: self.events[trigger] = Event(trigger)\<close>\<close>

definition ensure_event :: "string \<Rightarrow> (string \<times> Transition list) list \<Rightarrow> (string \<times> Transition list) list" where
  "ensure_event t evs = (if t \<in> set (map fst evs) then evs else evs @ [(t, [])])"

text \<open>\<open>self.events[trigger].add_transition(t)\<close>\<close>

fun event_add :: "string \<Rightarrow> Transition \<Rightarrow> (string \<times> Transition list) list \<Rightarrow> (string \<times> Transition list) list" where
  "event_add t tr [] = []"
| "event_add t tr ((t', trs) # evs) =
     (if t' = t then (t', trs @ [tr]) # evs else (t', trs) # event_add t tr evs)"

text \<open>
  \<open>Machine.add_transition\<close>: the source \<open>'*'\<close> stands for every registered state, the
  destination \<open>'='\<close> for the source itself. Neither source nor destination is checked.
\<close>

definition Machine_add_transition :: "Machine \<Rightarrow> Transition \<Rightarrow> Machine" where
  "Machine_add_transition m d =
     (let m1 = m\<lparr>events := ensure_event (trigger d) (events m)\<rparr>;
          sources = (if source d = ''*'' then state_names m1 else [source d])
      in fold (\<lambda>s m'. m'\<lparr>events :=
                 event_add (trigger d)
                   (d\<lparr>source := s, dest := (if dest d = ''='' then s else dest d)\<rparr>)
                   (events m')\<rparr>)
           sources m1)"

definition auto_transition :: "string \<Rightarrow> string \<Rightarrow> Transition" where
  "auto_transition src a =
     \<lparr>trigger = ''to_'' @ a, source = src, dest = a, conditions = [], unless = [],
      before = [], after = [], prepare = []\<rparr>"

text \<open>
  \<open>Machine.add_states\<close> for one state: the state is stored, then the automatic
  transitions are added, \<open>to_<state>\<close> from every state and \<open>to_<other>\<close> from this one.
\<close>

definition Machine_add_state :: "Machine \<Rightarrow> State \<Rightarrow> Machine" where
  "Machine_add_state m st =
     (let m1 = m\<lparr>registered := dict_set_state st (registered m)\<rparr>
      in fold (\<lambda>a m'. if a = state_name st
                       then Machine_add_transition m' (auto_transition ''*'' a)
                       else Machine_add_transition m' (auto_transition (state_name st) a))
           (state_names m1) m1)"

text \<open>
  \<open>Machine(model=self, states=..., initial=..., transitions=...)\<close>: the states, then the
  initial state if it is not among them, then the transitions.
\<close>

definition Machine_init :: "State list \<Rightarrow> string \<Rightarrow> Transition list \<Rightarrow> Machine" where
  "Machine_init sts initial trs =
     (let m0 = \<lparr>registered = [], events = []\<rparr>;
          m1 = fold (\<lambda>st m. Machine_add_state m st) sts m0;
          m2 = (if initial \<in> set (state_names m1) then m1
                else Machine_add_state m1 \<lparr>state_name = initial, on_enter = [], on_exit = []\<rparr>)
      in fold (\<lambda>d m. Machine_add_transition m d) trs m2)"

text \<open>
  \<open>Machine.get_triggers(state)\<close>: the names of the events that hold a transition whose
  source is the state, in the order of the dictionary. The argument is the model's
  \<open>state\<close> attribute, \<open>None\<close> before the first binding.
\<close>

definition get_triggers :: "Machine \<Rightarrow> string option \<Rightarrow> string list" where
  "get_triggers m st =
     (case st of
        None \<Rightarrow> []
      | Some s \<Rightarrow> map fst (filter (\<lambda>ev. s \<in> set (map source (snd ev))) (events m)))"

definition run_callbacks :: "callback list \<Rightarrow> User \<Rightarrow> User" where
  "run_callbacks cbs u = fold (\<lambda>cb u'. cb u') cbs u"

text \<open>\<open>Transition._eval_conditions\<close>: every condition holds, every \<open>unless\<close> guard fails.\<close>

definition eval_conditions :: "Transition \<Rightarrow> User \<Rightarrow> bool" where
  "eval_conditions t u =
     (list_all (\<lambda>c. c u) (conditions t) \<and> list_all (\<lambda>c. \<not> c u) (unless t))"

text \<open>
  \<open>Event._process\<close> with \<open>Transition.execute\<close>: the transitions of the event from the
  current state are tried in order; the first whose guards pass is carried out and ends
  the loop. A transition whose destination is empty is internal: it runs its callbacks and
  leaves the state. If no transition passes, the state stays and nothing is raised.
\<close>

fun process :: "Machine \<Rightarrow> Transition list \<Rightarrow> string \<Rightarrow> User \<Rightarrow> (string \<times> User) result" where
  "process m [] s u = Done (s, u)"
| "process m (t # ts) s u =
     (let u1 = run_callbacks (prepare t) u in
      if eval_conditions t u1 then
        (let u2 = run_callbacks (before t) u1 in
         if dest t = [] then Done (s, run_callbacks (after t) u2)
         else
           (case get_state m (source t) of
              None \<Rightarrow> Raised (ValueError_unregistered (source t)) (s, u2)
            | Some src \<Rightarrow>
                (let u3 = run_callbacks (on_exit src) u2 in
                 case get_state m (dest t) of
                   None \<Rightarrow> Raised (ValueError_unregistered (dest t)) (s, u3)
                 | Some dst \<Rightarrow>
                     Done (dest t, run_callbacks (after t) (run_callbacks (on_enter dst) u3)))))
      else process m ts s u1)"

text \<open>The transitions of event \<open>t\<close> that leave state \<open>s\<close>.\<close>

definition candidates :: "Machine \<Rightarrow> string \<Rightarrow> string \<Rightarrow> Transition list" where
  "candidates m t s =
     (case map_of (events m) t of
        None \<Rightarrow> []
      | Some trs \<Rightarrow> filter (\<lambda>tr. source tr = s) trs)"

text \<open>
  \<open>model.trigger(name, ...)\<close>: an unknown event name is an \<open>AttributeError\<close>; the
  model's state must be registered; an event without a transition from that state is a
  \<open>MachineError\<close>, since the machine was built without \<open>ignore_invalid_triggers\<close>.
\<close>

definition Machine_trigger :: "Machine \<Rightarrow> string \<Rightarrow> string \<Rightarrow> User \<Rightarrow> (string \<times> User) result" where
  "Machine_trigger m t s u =
     (case map_of (events m) t of
        None \<Rightarrow> Raised (AttributeError t) (s, u)
      | Some trs \<Rightarrow>
          (case get_state m s of
             None \<Rightarrow> Raised (ValueError_unregistered s) (s, u)
           | Some cur \<Rightarrow>
               if candidates m t s = [] then Raised (MachineError t s) (s, u)
               else process m (candidates m t s) s u))"

section \<open>Class Constructor (constructor.py)\<close>

text \<open>
  The fields of a \<open>Constructor\<close> that dispatching reads or writes. \<open>model_state\<close> is the
  attribute \<open>self.state\<close>, which the machine manages once the object is its model.
\<close>

record Constructor =
  machine :: "Machine option"
  model_state :: "string option"
  states :: "State list"
  transitions :: "Transition list"
  db_adapter :: DbAdapter
  user :: "User option"

text \<open>\<open>Constructor.__init__\<close> (lines 37-46).\<close>

definition Constructor_init :: "DbAdapter \<Rightarrow> Constructor" where
  "Constructor_init db =
     \<lparr>machine = None, model_state = None, states = [], transitions = [],
      db_adapter = db, user = None\<rparr>"

text \<open>\<open>Constructor.add_state\<close> (lines 126-133).\<close>

definition add_state :: "Constructor \<Rightarrow> string \<Rightarrow> callback list \<Rightarrow> callback list \<Rightarrow> Constructor" where
  "add_state c n enter exit =
     c\<lparr>states := states c @ [\<lparr>state_name = n, on_enter = enter, on_exit = exit\<rparr>]\<rparr>"

text \<open>\<open>Constructor.add_transition\<close> (lines 135-143).\<close>

definition add_transition ::
  "Constructor \<Rightarrow> string \<Rightarrow> string \<Rightarrow> string \<Rightarrow> condition list \<Rightarrow> condition list \<Rightarrow>
   callback list \<Rightarrow> callback list \<Rightarrow> callback list \<Rightarrow> Constructor" where
  "add_transition c trg src dst conds unl bef aft prep =
     c\<lparr>transitions := transitions c @
        [\<lparr>trigger = trg, source = src, dest = dst, conditions = conds, unless = unl,
          before = bef, after = aft, prepare = prep\<rparr>]\<rparr>"

text \<open>
  The regular expression engine is a parameter of the handler: \<open>re_match p s\<close> tells
  whether \<open>re.match(p, s)\<close> finds a match. Trigger names are taken to be well-formed
  patterns.
\<close>

type_synonym matcher = "string \<Rightarrow> string \<Rightarrow> bool"

text \<open>
  \<open>re.match\<close> for a pattern of ordinary characters only (no metacharacter): the match
  succeeds when the pattern is read off the beginning of the string.
\<close>

fun re_match_literal :: matcher where
  "re_match_literal [] s = True"
| "re_match_literal (c # p) [] = False"
| "re_match_literal (c # p) (x # s) = (c = x \<and> re_match_literal p s)"

text \<open>Python truth value of \<open>self.user.state\<close>: \<open>None\<close> and the empty string are false.\<close>

definition falsy :: "string option \<Rightarrow> bool" where
  "falsy v = (case v of None \<Rightarrow> True | Some s \<Rightarrow> s = [])"

text \<open>Line 62: \<open>START_STATE_NAME if not self.user.state else self.user.state\<close>.\<close>

definition start_if_falsy :: "string option \<Rightarrow> string" where
  "start_if_falsy v = (case v of None \<Rightarrow> START_STATE_NAME
                       | Some s \<Rightarrow> if s = [] then START_STATE_NAME else s)"

text \<open>
  Lines 64-72: an existing machine is rebound with \<open>set_state\<close>, which looks the state
  up; otherwise the machine is built from the registry, with the user's state as its
  initial state.
\<close>

definition bind_machine :: "Constructor \<Rightarrow> string \<Rightarrow> Constructor result" where
  "bind_machine c s =
     (case machine c of
        Some m \<Rightarrow>
          (case get_state m s of
             None \<Rightarrow> Raised (ValueError_unregistered s) c
           | Some st \<Rightarrow> Done (c\<lparr>model_state := Some s\<rparr>))
      | None \<Rightarrow>
          Done (c\<lparr>machine := Some (Machine_init (states c) s (transitions c)),
                 model_state := Some s\<rparr>))"

text \<open>Lines 57-72: load the user, default the state, bind the machine.\<close>

definition load_and_bind :: "int \<Rightarrow> Constructor \<Rightarrow> EffUser \<Rightarrow> Constructor result" where
  "load_and_bind now c eff_user =
     (case get_user (db_adapter c) eff_user now of
        Inl e \<Rightarrow> Raised e c
      | Inr (loaded, db) \<Rightarrow>
          (let s = start_if_falsy (state loaded);
               c1 = c\<lparr>user := Some (loaded\<lparr>state := Some s\<rparr>), db_adapter := db\<rparr>
           in bind_machine c1 s))"

text \<open>\<open>self.machine.get_triggers(self.state)\<close> (lines 74 and 95).\<close>

definition outgoing_triggers :: "Constructor \<Rightarrow> error + string list" where
  "outgoing_triggers c =
     (case machine c of
        None \<Rightarrow> Inl (AttributeError ''get_triggers'')
      | Some m \<Rightarrow> Inr (get_triggers m (model_state c)))"

text \<open>Lines 75-78: the loop over the possible triggers, with its accumulator.\<close>

fun collect_matches :: "matcher \<Rightarrow> string list \<Rightarrow> string \<Rightarrow> string list \<Rightarrow> string list" where
  "collect_matches re_match [] trg matched_triggers = matched_triggers"
| "collect_matches re_match (possible_trigger # rest) trg matched_triggers =
     collect_matches re_match rest trg
       (if re_match possible_trigger trg then matched_triggers @ [possible_trigger]
        else matched_triggers)"

text \<open>Lines 80-88.\<close>

definition resolve_trigger :: "string \<Rightarrow> string list \<Rightarrow> error + string" where
  "resolve_trigger trg matched_triggers =
     (if length matched_triggers = 0 then Inr FREE_TEXT_TRIGGER
      else if length matched_triggers = 1 then Inr (hd matched_triggers)
      else Inl (ValueError_matched trg matched_triggers))"

text \<open>
  Lines 90-93: fire the resolved trigger, copy the machine's state into the user record,
  commit the record.
\<close>

definition fire_and_commit :: "Constructor \<Rightarrow> string \<Rightarrow> Constructor result" where
  "fire_and_commit c trg =
     (case machine c of
        None \<Rightarrow> Raised (AttributeError ''model'') c
      | Some m \<Rightarrow>
          (case (model_state c, user c) of
             (Some s, Some u) \<Rightarrow>
               (case Machine_trigger m trg s u of
                  Raised e (s', u') \<Rightarrow> Raised e (c\<lparr>model_state := Some s', user := Some u'\<rparr>)
                | Done (s', u') \<Rightarrow>
                    (let c1 = c\<lparr>model_state := Some s', user := Some (u'\<lparr>state := Some s'\<rparr>)\<rparr>
                     in case commit_user (db_adapter c1) (u'\<lparr>state := Some s'\<rparr>) of
                          Inl e \<Rightarrow> Raised e c1
                        | Inr db \<Rightarrow> Done (c1\<lparr>db_adapter := db\<rparr>)))
           | _ \<Rightarrow> Raised (AttributeError ''state'') c))"

text \<open>Lines 57-93: one pass of the handler body, up to the chain check.\<close>

definition dispatch_hop :: "matcher \<Rightarrow> int \<Rightarrow> Constructor \<Rightarrow> EffUser \<Rightarrow> string \<Rightarrow> Constructor result" where
  "dispatch_hop re_match now c eff_user trg =
     (case load_and_bind now c eff_user of
        Raised e c1 \<Rightarrow> Raised e c1
      | Done c1 \<Rightarrow>
          (case outgoing_triggers c1 of
             Inl e \<Rightarrow> Raised e c1
           | Inr triggers \<Rightarrow>
               (case resolve_trigger trg (collect_matches re_match triggers trg []) of
                  Inl e \<Rightarrow> Raised e c1
                | Inr resolved \<Rightarrow> fire_and_commit c1 resolved)))"

text \<open>
  \<open>Constructor.__handler\<close> (lines 48-96). The first argument bounds the depth of the
  recursion of line 96, as the interpreter does: a call beyond the bound raises
  \<open>RecursionError\<close>.
\<close>

fun handler :: "nat \<Rightarrow> matcher \<Rightarrow> int \<Rightarrow> Constructor \<Rightarrow> EffUser \<Rightarrow> string \<Rightarrow> Constructor result" where
  "handler 0 re_match now c eff_user trg = Raised RecursionError c"
| "handler (Suc depth) re_match now c eff_user trg =
     (case dispatch_hop re_match now c eff_user trg of
        Raised e c1 \<Rightarrow> Raised e c1
      | Done c1 \<Rightarrow>
          (case outgoing_triggers c1 of
             Inl e \<Rightarrow> Raised e c1
           | Inr triggers \<Rightarrow>
               if PASSING_TRIGGER \<in> set triggers
               then handler depth re_match now c1 eff_user PASSING_TRIGGER
               else Done c1))"

section \<open>Regular expressions (module re)\<close>

text \<open>
  \<open>re.match\<close> belongs to the standard library. This section models it for patterns written
  with ordinary characters, \<open>.\<close> (any character but a newline), a backslash before a
  character that is neither a letter nor a digit (that character itself), \<open>\d\<close> (a decimal
  digit), grouping with parentheses, alternation with \<open>|\<close>, and the repetitions \<open>*\<close>,
  \<open>+\<close> and \<open>?\<close>, each of which may be followed by one \<open>?\<close> (the lazy variant, which
  matches the same strings). Every other pattern is outside the model: those the module
  refuses (nothing to repeat, unbalanced parentheses, a trailing backslash) and those it
  accepts with constructs not modelled (character sets, counted repetition, anchors,
  extension groups, other escapes, possessive repetition).
\<close>

datatype cset = Chr char | Dot | Digit


datatype regex = Nothing | Epsilon | Sym cset | Alt regex regex | Cat regex regex | Star regex





text \<open>
  Reading a pattern. The reader keeps the alternatives and the items of the group it is in,
  what the last item was (so that a repetition has something to repeat and is not itself
  repeated), the enclosing groups, and whether the last character was a backslash.
\<close>

datatype qflag = NoAtom | Plain | Quantified | Lazy

record frame =
  alts :: "regex list"
  items :: "regex list"
  flag :: qflag

record pstate =
  cur :: frame
  stack :: "frame list"
  escaped :: bool

definition seq_of :: "regex list \<Rightarrow> regex" where
  "seq_of rs = foldr Cat (rev rs) Epsilon"

fun alt_of :: "regex list \<Rightarrow> regex" where
  "alt_of [] = Epsilon"
| "alt_of (r # rs) = foldl Alt r rs"

definition close_frame :: "frame \<Rightarrow> regex" where
  "close_frame f = alt_of (alts f @ [seq_of (items f)])"

definition push_atom :: "regex \<Rightarrow> pstate \<Rightarrow> pstate option" where
  "push_atom r st =
     Some (st\<lparr>cur := (cur st)\<lparr>items := r # items (cur st), flag := Plain\<rparr>, escaped := False\<rparr>)"

definition quantify :: "(regex \<Rightarrow> regex) \<Rightarrow> pstate \<Rightarrow> pstate option" where
  "quantify q st =
     (case (flag (cur st), items (cur st)) of
        (Plain, r # rs) \<Rightarrow> Some (st\<lparr>cur := (cur st)\<lparr>items := q r # rs, flag := Quantified\<rparr>\<rparr>)
      | _ \<Rightarrow> None)"

definition ascii_letter :: "char \<Rightarrow> bool" where
  "ascii_letter c = (c \<in> set ''abcdefghijklmnopqrstuvwxyzABCDEFGHIJKLMNOPQRSTUVWXYZ'')"

definition ascii_digit :: "char \<Rightarrow> bool" where
  "ascii_digit c = (c \<in> set ''0123456789'')"

definition step :: "char \<Rightarrow> pstate \<Rightarrow> pstate option" where
  "step c st =
     (if escaped st then
        (if c = CHR ''d'' then push_atom (Sym Digit) st
         else if ascii_letter c \<or> ascii_digit c then None
         else push_atom (Sym (Chr c)) st)
      else if c = CHR 0x5C then Some (st\<lparr>escaped := True\<rparr>)
      else if c = CHR ''('' then
        Some (st\<lparr>cur := \<lparr>alts = [], items = [], flag = NoAtom\<rparr>, stack := cur st # stack st\<rparr>)
      else if c = CHR '')'' then
        (case stack st of
           [] \<Rightarrow> None
         | parent # rest \<Rightarrow>
             Some (st\<lparr>cur := parent\<lparr>items := close_frame (cur st) # items parent, flag := Plain\<rparr>,
                      stack := rest\<rparr>))
      else if c = CHR ''|'' then
        Some (st\<lparr>cur := \<lparr>alts = alts (cur st) @ [seq_of (items (cur st))], items = [],
                          flag = NoAtom\<rparr>\<rparr>)
      else if c = CHR ''*'' then quantify Star st
      else if c = CHR ''+'' then quantify (\<lambda>r. Cat r (Star r)) st
      else if c = CHR ''?'' then
        (if flag (cur st) = Quantified then Some (st\<lparr>cur := (cur st)\<lparr>flag := Lazy\<rparr>\<rparr>)
         else quantify (\<lambda>r. Alt r Epsilon) st)
      else if c = CHR ''.'' then push_atom (Sym Dot) st
      else if c \<in> set ''^${}[]'' then None
      else push_atom (Sym (Chr c)) st)"




section \<open>Predicates used in the statements\<close>

text \<open>The result of a computation, as the exception it raised, if any.\<close>

fun raised :: "'a result \<Rightarrow> error option" where
  "raised (Done w) = None"
| "raised (Raised e w) = Some e"

text \<open>
  The list \<open>matched_triggers\<close> that lines 74-78 build in a dispatch of \<open>trg\<close>
  (empty if the dispatch does not reach them).
\<close>

definition matched_in_dispatch :: "matcher \<Rightarrow> int \<Rightarrow> Constructor \<Rightarrow> EffUser \<Rightarrow> string \<Rightarrow> string list" where
  "matched_in_dispatch re_match now c eff_user trg =
     (case load_and_bind now c eff_user of
        Raised e c1 \<Rightarrow> []
      | Done c1 \<Rightarrow>
          (case outgoing_triggers c1 of
             Inl e \<Rightarrow> []
           | Inr triggers \<Rightarrow> collect_matches re_match triggers trg []))"

text \<open>
  A callback that leaves the primary key of the user record alone. The handler loads the
  record by the id of the inbound user and commits it under its own id, so a chain of hops
  follows one row only if callbacks keep the id.
\<close>

definition keeps_id :: "callback \<Rightarrow> bool" where
  "keeps_id cb = (\<forall>u. user_id (cb u) = user_id u)"

definition State_keeps_id :: "State \<Rightarrow> bool" where
  "State_keeps_id st = (list_all keeps_id (on_enter st) \<and> list_all keeps_id (on_exit st))"

definition Transition_keeps_id :: "Transition \<Rightarrow> bool" where
  "Transition_keeps_id t =
     (list_all keeps_id (before t) \<and> list_all keeps_id (after t) \<and> list_all keeps_id (prepare t))"

definition Machine_keeps_id :: "Machine \<Rightarrow> bool" where
  "Machine_keeps_id m =
     (list_all State_keeps_id (registered m)
      \<and> list_all (\<lambda>ev. list_all Transition_keeps_id (snd ev)) (events m))"

text \<open>
  A sufficient condition that can be computed: the machine holds no callback at all.
\<close>

definition no_callbacks :: "Machine \<Rightarrow> bool" where
  "no_callbacks m =
     (list_all (\<lambda>st. on_enter st = [] \<and> on_exit st = []) (registered m)
      \<and> list_all (\<lambda>ev. list_all (\<lambda>t. before t = [] \<and> after t = [] \<and> prepare t = []) (snd ev))
           (events m))"

text \<open>
  An unconditional pass-through from \<open>a\<close> to \<open>b\<close>: the pass-through signal matches
  exactly one pattern leaving \<open>a\<close>, the pass-through trigger itself; the first transition
  of that trigger from \<open>a\<close> has no guard and leads to \<open>b\<close>; \<open>b\<close> is a registered state
  with a non-empty name.
\<close>

definition unguarded :: "Transition \<Rightarrow> bool" where
  "unguarded t = (conditions t = [] \<and> unless t = [])"

definition passes_through :: "matcher \<Rightarrow> Machine \<Rightarrow> string \<Rightarrow> string \<Rightarrow> bool" where
  "passes_through re_match m a b =
     (filter (\<lambda>p. re_match p PASSING_TRIGGER) (get_triggers m (Some a)) = [PASSING_TRIGGER]
      \<and> (case candidates m PASSING_TRIGGER a of [] \<Rightarrow> False
          | t # rest \<Rightarrow> unguarded t \<and> dest t = b)
      \<and> b \<noteq> [] \<and> b \<in> set (state_names m))"

text \<open>
  What holds between two hops of one dispatch for the user of the inbound event: the
  machine stands at a registered state with a non-empty name, and the stored row of the
  user carries that state.
\<close>

definition at_rest :: "Constructor \<Rightarrow> Machine \<Rightarrow> EffUser \<Rightarrow> string \<Rightarrow> bool" where
  "at_rest c m eff_user a =
     (machine c = Some m \<and> model_state c = Some a \<and> a \<noteq> [] \<and> get_state m a \<noteq> None
      \<and> Session_attr (db_adapter c)
      \<and> map_option state (query_one (db_adapter c) (eff_id eff_user)) = Some (Some a))"

section \<open>A sample bot\<close>

text \<open>
  A registry with the start state and three more states. From the start state, \<open>hello\<close>
  leads to \<open>a\<close>, the patterns \<open>stop\<close> and \<open>st\<close> both lead to \<open>c\<close>, and free text stays.
  State \<open>a\<close> passes through to \<open>b\<close> and \<open>b\<close> to \<open>c\<close>; \<open>back\<close> leads from \<open>a\<close> to the
  start state; \<open>go\<close> leads from \<open>c\<close> to \<open>a\<close> under a condition that never holds. The adapter
  has a session factory and a user class whose constructor takes no argument.
\<close>

definition blank_user :: User where
  "blank_user = \<lparr>user_id = 0, state = None, first_name = None, last_name = None,
                  name = None, username = None, created_at = None\<rparr>"

definition ann :: EffUser where
  "ann = \<lparr>eff_id = 7, eff_first_name = Some ''Ann'', eff_last_name = None,
           eff_name = Some ''@ann'', eff_username = Some ''ann''\<rparr>"

definition ann_row :: "string option \<Rightarrow> User" where
  "ann_row st = \<lparr>user_id = 7, state = st, first_name = Some ''Ann'', last_name = None,
                  name = Some ''@ann'', username = Some ''ann'', created_at = Some 100\<rparr>"

definition demo_db :: "User list \<Rightarrow> DbAdapter" where
  "demo_db rows = \<lparr>Session_attr = True, user_class = Custom_User blank_user,
                    table = rows, writes = []\<rparr>"

definition never :: condition where
  "never u = False"

definition demo_bot :: "User list \<Rightarrow> Constructor" where
  "demo_bot rows =
     (let c0 = Constructor_init (demo_db rows);
          c1 = add_state c0 START_STATE_NAME [] [];
          c2 = add_state c1 ''a'' [] [];
          c3 = add_state c2 ''b'' [] [];
          c4 = add_state c3 ''c'' [] [];
          c5 = add_transition c4 ''hello'' START_STATE_NAME ''a'' [] [] [] [] [];
          c6 = add_transition c5 ''stop'' START_STATE_NAME ''c'' [] [] [] [] [];
          c7 = add_transition c6 ''st'' START_STATE_NAME ''c'' [] [] [] [] [];
          c8 = add_transition c7 FREE_TEXT_TRIGGER START_STATE_NAME START_STATE_NAME [] [] [] [] [];
          c9 = add_transition c8 PASSING_TRIGGER ''a'' ''b'' [] [] [] [] [];
          c10 = add_transition c9 PASSING_TRIGGER ''b'' ''c'' [] [] [] [] [];
          c11 = add_transition c10 ''back'' ''a'' START_STATE_NAME [] [] [] [] []
      in add_transition c11 ''go'' ''c'' ''a'' [never] [] [] [] [])"

definition demo_machine :: Machine where
  "demo_machine = Machine_init (states (demo_bot [])) START_STATE_NAME (transitions (demo_bot []))"


section \<open>The persistence adapter\<close>

lemma get_user_reads_only:
  assumes "get_user db eff_user now = Inr (u, db')"
  shows "db' = db \<and> Session_attr db \<and> user_id u = eff_id eff_user"
  using assms
  by (auto simp: get_user_def Let_def Session_add_def Session_expunge_def Session_commit_def
        query_one_def find_Some_iff
      split: if_splits option.splits sum.splits)

lemma get_user_existing:
  assumes "Session_attr db" and "query_one db (eff_id eff_user) = Some u"
  shows "get_user db eff_user now = Inr (u, db)"
  using assms
  by (simp add: get_user_def Let_def Session_expunge_def Session_commit_def)

lemma query_one_id: "query_one db k = Some u \<Longrightarrow> user_id u = k"
  by (auto simp: query_one_def find_Some_iff)

lemma find_replace:
  "k \<in> user_id ` set rows \<Longrightarrow> user_id u = k \<Longrightarrow>
   find (\<lambda>r. user_id r = k) (map (\<lambda>r. if user_id r = k then u else r) rows) = Some u"
  by (induction rows) auto

lemma find_append_new:
  "k \<notin> user_id ` set rows \<Longrightarrow> user_id u = k \<Longrightarrow> find (\<lambda>r. user_id r = k) (rows @ [u]) = Some u"
  by (induction rows) auto

lemma find_upsert: "find (\<lambda>r. user_id r = user_id u) (upsert u rows) = Some u"
  by (simp add: upsert_def find_replace find_append_new)

lemma commit_user_flush: "Session_attr db \<Longrightarrow> commit_user db u = Inr (flush u db)"
  by (simp add: commit_user_def Session_add_def Session_commit_def)

lemma commit_user_Inr: "commit_user db u = Inr db' \<Longrightarrow> db' = flush u db \<and> Session_attr db"
  by (auto simp: commit_user_def Session_add_def Session_commit_def split: if_splits)

lemma commit_user_Inl: "commit_user db u = Inl e \<Longrightarrow> \<not> Session_attr db"
  by (auto simp: commit_user_def split: if_splits)

lemma query_flush: "query_one (flush u db) (user_id u) = Some u"
  by (simp add: query_one_def flush_def find_upsert)

lemma query_flush_id: "user_id r = k \<Longrightarrow> query_one (flush r db) k = Some r"
  using query_flush[of r db] by simp

lemma flush_fields:
  "Session_attr (flush u db) = Session_attr db"
  "writes (flush u db) = writes db @ [u]"
  "table (flush u db) = upsert u (table db)"
  "user_class (flush u db) = user_class db"
  by (simp_all add: flush_def)

text \<open>
  On a plain \<open>DbAdapter\<close> both operations fail on the missing attribute.
\<close>

lemma plain_adapter_fails:
  "\<not> Session_attr db \<Longrightarrow>
     get_user db eff_user now = Inl (AttributeError ''Session'')
     \<and> commit_user db u = Inl (AttributeError ''Session'')"
  by (simp add: get_user_def commit_user_def)

section \<open>The state machine\<close>

lemma get_state_names: "get_state m n \<noteq> None \<longleftrightarrow> n \<in> set (state_names m)"
  by (auto simp: get_state_def state_names_def find_None_iff)

lemma get_state_names': "(\<exists>st. get_state m n = Some st) \<longleftrightarrow> n \<in> set (state_names m)"
  using get_state_names[of m n] by auto

lemma get_state_registered: "get_state m n = Some st \<Longrightarrow> st \<in> set (registered m) \<and> state_name st = n"
  by (auto simp: get_state_def find_Some_iff in_set_conv_nth)

lemma registered_fold_events:
  "registered (fold (\<lambda>s m'. m'\<lparr>events := f s m'\<rparr>) xs m0) = registered m0"
  by (induction xs arbitrary: m0) auto

lemma registered_add_transition: "registered (Machine_add_transition m d) = registered m"
  by (simp add: Machine_add_transition_def Let_def registered_fold_events)

lemma registered_fold_add_transition:
  "registered (fold (\<lambda>d m. Machine_add_transition m d) trs m) = registered m"
  by (induction trs arbitrary: m) (auto simp: registered_add_transition)

lemma set_dict_set_state: "state_name st \<in> state_name ` set (dict_set_state st xs)"
  by (induction xs) auto

lemma registered_fold_auto:
  "registered (fold (\<lambda>a m'. if a = n then Machine_add_transition m' (f a)
                       else Machine_add_transition m' (g a)) xs m0) = registered m0"
  by (induction xs arbitrary: m0) (auto simp: registered_add_transition)

lemma registered_add_state:
  "registered (Machine_add_state m st) = dict_set_state st (registered m)"
  by (simp add: Machine_add_state_def Let_def registered_fold_auto)

lemma initial_registered: "initial \<in> set (state_names (Machine_init sts initial trs))"
  by (auto simp: Machine_init_def Let_def state_names_def registered_fold_add_transition
      registered_add_state) (use set_dict_set_state in force)

lemma get_triggers_set:
  "set (get_triggers m (Some s)) = {t. \<exists>trs. (t, trs) \<in> set (events m) \<and> s \<in> source ` set trs}"
  by (force simp: get_triggers_def)

lemma candidates_in_triggers:
  assumes "candidates m t s \<noteq> []"
  shows "t \<in> set (get_triggers m (Some s))"
proof -
  from assms obtain trs where trs: "map_of (events m) t = Some trs" "filter (\<lambda>tr. source tr = s) trs \<noteq> []"
    by (auto simp: candidates_def split: option.splits)
  from trs(2) obtain tr where "tr \<in> set trs" "source tr = s"
    by (auto simp: filter_empty_conv)
  with map_of_SomeD[OF trs(1)] show ?thesis
    by (auto simp: get_triggers_set)
qed

lemma candidates_source: "t \<in> set (candidates m p s) \<Longrightarrow> source t = s"
  by (auto simp: candidates_def split: option.splits)

lemma run_callbacks_keeps_id:
  "list_all keeps_id cbs \<Longrightarrow> user_id (run_callbacks cbs u) = user_id u"
  unfolding run_callbacks_def
  by (induction cbs arbitrary: u) (auto simp: keeps_id_def)

lemma process_state:
  "process m ts s u = Done (s', u') \<Longrightarrow> s' = s \<or> (s' \<noteq> [] \<and> get_state m s' \<noteq> None)"
  by (induction ts arbitrary: u) (auto simp: Let_def split: if_splits option.splits)

lemma process_keeps_id:
  assumes "list_all State_keeps_id (registered m)" "list_all Transition_keeps_id ts"
  shows "user_id (snd (world (process m ts s u))) = user_id u"
  using assms(2)
proof (induction ts arbitrary: u)
  case Nil
  then show ?case by simp
next
  case (Cons t ts)
  have st: "get_state m n = Some x \<Longrightarrow> State_keeps_id x" for n x
    using assms(1) get_state_registered[of m n x] by (auto simp: list_all_iff)
  from Cons.prems have t: "Transition_keeps_id t" and ts: "list_all Transition_keeps_id ts" by auto
  show ?case
    using Cons.IH[OF ts] t
    by (auto simp: Let_def run_callbacks_keeps_id Transition_keeps_id_def State_keeps_id_def
        dest!: st split: option.splits)
qed

lemma candidates_keeps_id:
  assumes "Machine_keeps_id m"
  shows "list_all Transition_keeps_id (candidates m t s)"
proof (cases "map_of (events m) t")
  case None
  then show ?thesis by (simp add: candidates_def)
next
  case (Some trs)
  then have "(t, trs) \<in> set (events m)" by (rule map_of_SomeD)
  with assms have "list_all Transition_keeps_id trs"
    by (auto simp: Machine_keeps_id_def list_all_iff)
  with Some show ?thesis by (auto simp: candidates_def list_all_iff)
qed

lemma Machine_trigger_keeps_id:
  assumes "Machine_keeps_id m"
  shows "user_id (snd (world (Machine_trigger m t s u))) = user_id u"
proof -
  from assms have r: "list_all State_keeps_id (registered m)" by (simp add: Machine_keeps_id_def)
  show ?thesis
    using process_keeps_id[OF r candidates_keeps_id[OF assms], of t s s u]
    by (auto simp: Machine_trigger_def split: option.splits)
qed

lemma Machine_trigger_Done:
  assumes "Machine_trigger m t s u = Done (s', u')"
  shows "get_state m s \<noteq> None \<and> candidates m t s \<noteq> []
         \<and> process m (candidates m t s) s u = Done (s', u')
         \<and> get_state m s' \<noteq> None \<and> (s \<noteq> [] \<longrightarrow> s' \<noteq> [])"
proof -
  from assms have a: "get_state m s \<noteq> None" "candidates m t s \<noteq> []"
    "process m (candidates m t s) s u = Done (s', u')"
    by (auto simp: Machine_trigger_def split: option.splits if_splits)
  with process_state[OF a(3)] show ?thesis by auto
qed

lemma process_first:
  assumes "eval_conditions t (run_callbacks (prepare t) u)"
    and "dest t \<noteq> []" and "get_state m (source t) \<noteq> None" and "get_state m (dest t) \<noteq> None"
  shows "\<exists>u'. process m (t # rest) s u = Done (dest t, u')"
  using assms by (auto simp: Let_def)

lemma Machine_trigger_first:
  assumes "candidates m p s = t # rest"
    and "eval_conditions t (run_callbacks (prepare t) u)"
    and "dest t \<noteq> []" and "get_state m s \<noteq> None" and "get_state m (dest t) \<noteq> None"
  shows "\<exists>u'. Machine_trigger m p s u = Done (dest t, u')"
proof -
  from assms(1) have src: "source t = s"
    using candidates_source[of t m p s] by simp
  from assms(1) obtain trs where "map_of (events m) p = Some trs"
    by (auto simp: candidates_def split: option.splits)
  moreover from process_first[OF assms(2,3) _ assms(5), of rest s] assms(4) src
  obtain u' where "process m (t # rest) s u = Done (dest t, u')" by auto
  ultimately show ?thesis using assms(1,4)
    by (auto simp: Machine_trigger_def)
qed

lemma no_callbacks_keeps_id: "no_callbacks m \<Longrightarrow> Machine_keeps_id m"
  by (auto simp: no_callbacks_def Machine_keeps_id_def State_keeps_id_def
      Transition_keeps_id_def list_all_iff)

section \<open>Regular expressions\<close>







section \<open>The handler\<close>

lemma collect_matches_filter:
  "collect_matches re_match ps trg acc = acc @ filter (\<lambda>p. re_match p trg) ps"
  by (induction ps arbitrary: acc) auto

lemma start_if_falsy_nonempty: "start_if_falsy v \<noteq> []"
  by (simp add: start_if_falsy_def START_STATE_NAME_def split: option.splits)

lemma re_match_literal_prefix: "re_match_literal p s \<longleftrightarrow> prefix p s"
  by (induction p s rule: re_match_literal.induct) auto

lemma load_and_bind_Done:
  assumes "load_and_bind now c eff_user = Done c1"
  obtains loaded m s where
    "get_user (db_adapter c) eff_user now = Inr (loaded, db_adapter c)"
    "s = start_if_falsy (state loaded)"
    "machine c1 = Some m" "model_state c1 = Some s"
    "user c1 = Some (loaded\<lparr>state := Some s\<rparr>)"
    "db_adapter c1 = db_adapter c" "get_state m s \<noteq> None"
    "user_id loaded = eff_id eff_user" "Session_attr (db_adapter c)"
proof -
  from assms obtain loaded db where g: "get_user (db_adapter c) eff_user now = Inr (loaded, db)"
    by (auto simp: load_and_bind_def split: sum.splits)
  from get_user_reads_only[OF g] have db: "db = db_adapter c" and sa: "Session_attr (db_adapter c)"
    and uid: "user_id loaded = eff_id eff_user" by auto
  define s where "s = start_if_falsy (state loaded)"
  from assms g have b: "bind_machine (c\<lparr>user := Some (loaded\<lparr>state := Some s\<rparr>), db_adapter := db\<rparr>) s = Done c1"
    by (simp add: load_and_bind_def Let_def s_def)
  show thesis
  proof (cases "machine c")
    case None
    with b have c1: "c1 = c\<lparr>user := Some (loaded\<lparr>state := Some s\<rparr>), db_adapter := db,
       machine := Some (Machine_init (states c) s (transitions c)), model_state := Some s\<rparr>"
      by (auto simp: bind_machine_def)
    show ?thesis
      by (rule that[of loaded s "Machine_init (states c) s (transitions c)"])
         (use g db sa uid c1 in \<open>auto simp: s_def get_state_names' initial_registered\<close>)
  next
    case (Some m)
    with b have "get_state m s \<noteq> None" and c1: "c1 = c\<lparr>user := Some (loaded\<lparr>state := Some s\<rparr>), db_adapter := db, model_state := Some s\<rparr>"
      by (auto simp: bind_machine_def split: option.splits)
    show ?thesis
      by (rule that[of loaded s m])
         (use g db sa uid c1 Some \<open>get_state m s \<noteq> None\<close> in \<open>auto simp: s_def\<close>)
  qed
qed

lemma outgoing_triggers_Some:
  "machine c = Some m \<Longrightarrow> outgoing_triggers c = Inr (get_triggers m (model_state c))"
  by (simp add: outgoing_triggers_def)

lemma fire_and_commit_Done:
  assumes "fire_and_commit c1 p = Done c2"
    and "machine c1 = Some m" "model_state c1 = Some s" "user c1 = Some u"
  obtains s' u' where
    "Machine_trigger m p s u = Done (s', u')"
    "machine c2 = Some m" "model_state c2 = Some s'"
    "user c2 = Some (u'\<lparr>state := Some s'\<rparr>)"
    "db_adapter c2 = flush (u'\<lparr>state := Some s'\<rparr>) (db_adapter c1)"
    "Session_attr (db_adapter c1)"
proof -
  from assms obtain s' u' where t: "Machine_trigger m p s u = Done (s', u')"
    by (cases "Machine_trigger m p s u") (auto simp: fire_and_commit_def)
  from assms t obtain db where
    cu: "commit_user (db_adapter c1) (u'\<lparr>state := Some s'\<rparr>) = Inr db"
    and c2: "c2 = c1\<lparr>model_state := Some s', user := Some (u'\<lparr>state := Some s'\<rparr>), db_adapter := db\<rparr>"
    by (auto simp: fire_and_commit_def Let_def split: sum.splits)
  from commit_user_Inr[OF cu] c2 t assms(2) show thesis
    by (intro that[of s' u']) auto
qed

lemma fire_and_commit_ok:
  assumes "machine c1 = Some m" "model_state c1 = Some s" "user c1 = Some u"
    and "Session_attr (db_adapter c1)"
    and "Machine_trigger m p s u = Done (s', u')"
  shows "fire_and_commit c1 p =
           Done (c1\<lparr>model_state := Some s', user := Some (u'\<lparr>state := Some s'\<rparr>),
                    db_adapter := flush (u'\<lparr>state := Some s'\<rparr>) (db_adapter c1)\<rparr>)"
  using assms by (simp add: fire_and_commit_def Let_def commit_user_flush)

lemma fire_and_commit_Raised:
  assumes "machine c1 = Some m" "model_state c1 = Some s" "user c1 = Some u"
    and "Machine_trigger m p s u = Raised e (s, u)"
  shows "fire_and_commit c1 p = Raised e c1"
  using assms by (simp add: fire_and_commit_def)

lemma dispatch_hop_Done:
  assumes "dispatch_hop re_match now c eff_user trg = Done c2"
  obtains c1 m s u p s' u' where
    "load_and_bind now c eff_user = Done c1"
    "machine c1 = Some m" "model_state c1 = Some s" "user c1 = Some u"
    "resolve_trigger trg (filter (\<lambda>q. re_match q trg) (get_triggers m (Some s))) = Inr p"
    "Machine_trigger m p s u = Done (s', u')"
    "machine c2 = Some m" "model_state c2 = Some s'"
    "user c2 = Some (u'\<lparr>state := Some s'\<rparr>)"
    "db_adapter c2 = flush (u'\<lparr>state := Some s'\<rparr>) (db_adapter c)"
    "Session_attr (db_adapter c)" "user_id u = eff_id eff_user"
    "s \<noteq> []" "get_state m s \<noteq> None"
proof -
  from assms obtain c1 where lb: "load_and_bind now c eff_user = Done c1"
    by (cases "load_and_bind now c eff_user") (auto simp: dispatch_hop_def)
  from lb obtain loaded m s where l:
    "s = start_if_falsy (state loaded)"
    "machine c1 = Some m" "model_state c1 = Some s"
    "user c1 = Some (loaded\<lparr>state := Some s\<rparr>)"
    "db_adapter c1 = db_adapter c" "get_state m s \<noteq> None"
    "user_id loaded = eff_id eff_user" "Session_attr (db_adapter c)"
    by (rule load_and_bind_Done)
  from assms lb l obtain p where
    r: "resolve_trigger trg (filter (\<lambda>q. re_match q trg) (get_triggers m (Some s))) = Inr p"
    and f: "fire_and_commit c1 p = Done c2"
    by (auto simp: dispatch_hop_def outgoing_triggers_Some collect_matches_filter split: sum.splits)
  from f l(2,3,4) obtain s' u' where
    "Machine_trigger m p s (loaded\<lparr>state := Some s\<rparr>) = Done (s', u')"
    "machine c2 = Some m" "model_state c2 = Some s'"
    "user c2 = Some (u'\<lparr>state := Some s'\<rparr>)"
    "db_adapter c2 = flush (u'\<lparr>state := Some s'\<rparr>) (db_adapter c1)"
    by (rule fire_and_commit_Done)
  with lb l r show thesis
    by (intro that[of c1 m s "loaded\<lparr>state := Some s\<rparr>" p s' u'])
       (auto simp: start_if_falsy_nonempty)
qed

lemma dispatch_hop_commit:
  assumes "dispatch_hop re_match now c eff_user trg = Done c2"
  shows "\<exists>u. user c2 = Some u \<and> state u = model_state c2
           \<and> writes (db_adapter c2) = writes (db_adapter c) @ [u]
           \<and> table (db_adapter c2) = upsert u (table (db_adapter c))
           \<and> query_one (db_adapter c2) (user_id u) = Some u"
  using assms
  by (elim dispatch_hop_Done) (simp add: flush_fields query_flush_id)

lemma dispatch_hop_writes:
  "prefix (writes (db_adapter c)) (writes (db_adapter (world (dispatch_hop re_match now c eff_user trg))))"
proof (cases "dispatch_hop re_match now c eff_user trg")
  case (Done c2)
  then obtain r where "db_adapter c2 = flush r (db_adapter c)"
    by (elim dispatch_hop_Done)
  with Done show ?thesis by (simp add: flush_fields)
next
  case (Raised e c2)
  have "db_adapter c2 = db_adapter c"
  proof (cases "load_and_bind now c eff_user")
    case (Done c1)
    then obtain loaded m s where l: "machine c1 = Some m" "model_state c1 = Some s"
      "user c1 = Some (loaded\<lparr>state := Some s\<rparr>)" "db_adapter c1 = db_adapter c"
      "Session_attr (db_adapter c)"
      by (rule load_and_bind_Done)
    show ?thesis
    proof (cases "resolve_trigger trg (collect_matches re_match (get_triggers m (Some s)) trg [])")
      case (Inl e')
      with Raised Done l show ?thesis by (simp add: dispatch_hop_def outgoing_triggers_Some)
    next
      case (Inr p)
      with Raised Done l have "fire_and_commit c1 p = Raised e c2"
        by (simp add: dispatch_hop_def outgoing_triggers_Some)
      with l show ?thesis
        by (auto simp: fire_and_commit_def Let_def commit_user_flush split: result.splits prod.splits)
    qed
  next
    case R: (Raised e' c1)
    with Raised have "c2 = c1" by (simp add: dispatch_hop_def)
    with R show ?thesis
      by (auto simp: load_and_bind_def bind_machine_def Let_def
          dest!: get_user_reads_only split: sum.splits option.splits)
  qed
  with Raised show ?thesis by simp
qed

lemma handler_writes:
  "prefix (writes (db_adapter c)) (writes (db_adapter (world (handler depth re_match now c eff_user trg))))"
proof (induction depth arbitrary: c trg)
  case 0
  then show ?case by simp
next
  case (Suc depth)
  note hop = dispatch_hop_writes[of c re_match now eff_user trg]
  show ?case
  proof (cases "dispatch_hop re_match now c eff_user trg")
    case (Raised e c1)
    with hop show ?thesis by simp
  next
    case (Done c1)
    show ?thesis
    proof (cases "outgoing_triggers c1")
      case (Inl e)
      with Done hop show ?thesis by simp
    next
      case (Inr triggers)
      show ?thesis
      proof (cases "PASSING_TRIGGER \<in> set triggers")
        case True
        with Done Inr hop Suc.IH[of c1 PASSING_TRIGGER] show ?thesis
          by (auto intro: prefix_order.trans)
      next
        case False
        with Done Inr hop show ?thesis by simp
      qed
    qed
  qed
qed

lemma handler_step:
  assumes "dispatch_hop re_match now c eff_user trg = Done c1" and "machine c1 = Some m"
  shows "handler (Suc depth) re_match now c eff_user trg =
           (if PASSING_TRIGGER \<in> set (get_triggers m (model_state c1))
            then handler depth re_match now c1 eff_user PASSING_TRIGGER else Done c1)"
  using assms by (simp add: outgoing_triggers_Some)

lemma passes_through_trigger:
  "passes_through re_match m a b \<Longrightarrow> PASSING_TRIGGER \<in> set (get_triggers m (Some a))"
proof -
  assume "passes_through re_match m a b"
  then have "PASSING_TRIGGER \<in> set (filter (\<lambda>p. re_match p PASSING_TRIGGER) (get_triggers m (Some a)))"
    by (simp add: passes_through_def)
  then show ?thesis by simp
qed

lemma dispatch_hop_at_rest:
  assumes "dispatch_hop re_match now c eff_user trg = Done c1"
    and "machine c1 = Some m" and "Machine_keeps_id m"
  shows "\<exists>a u. at_rest c1 m eff_user a \<and> model_state c1 = Some a
           \<and> writes (db_adapter c1) = writes (db_adapter c) @ [u] \<and> state u = Some a"
proof -
  from assms(1) obtain c0 m0 s u p s' u' where
    "load_and_bind now c eff_user = Done c0"
    "machine c0 = Some m0" "model_state c0 = Some s" "user c0 = Some u"
    "resolve_trigger trg (filter (\<lambda>q. re_match q trg) (get_triggers m0 (Some s))) = Inr p"
    and h: "Machine_trigger m0 p s u = Done (s', u')"
    "machine c1 = Some m0" "model_state c1 = Some s'"
    "user c1 = Some (u'\<lparr>state := Some s'\<rparr>)"
    "db_adapter c1 = flush (u'\<lparr>state := Some s'\<rparr>) (db_adapter c)"
    "Session_attr (db_adapter c)" "user_id u = eff_id eff_user"
    "s \<noteq> []" "get_state m0 s \<noteq> None"
    by (rule dispatch_hop_Done)
  from h(2) assms(2) have m: "m0 = m" by simp
  from Machine_trigger_keeps_id[OF assms(3), of p s u] h(1) m
  have id: "user_id u' = eff_id eff_user" using h(7) by simp
  from Machine_trigger_Done[OF h(1)] h(8) m
  have s': "s' \<noteq> []" "get_state m s' \<noteq> None" by auto
  have "at_rest c1 m eff_user s'"
    using h m id s' by (simp add: at_rest_def flush_fields query_flush_id)
  with h show ?thesis by (auto simp: flush_fields)
qed

lemma pass_hop:
  assumes "at_rest c1 m eff_user a" and "Machine_keeps_id m"
    and "passes_through re_match m a b"
  shows "\<exists>c2 u. dispatch_hop re_match now c1 eff_user PASSING_TRIGGER = Done c2
           \<and> at_rest c2 m eff_user b
           \<and> writes (db_adapter c2) = writes (db_adapter c1) @ [u] \<and> state u = Some b"
proof -
  from assms(1) obtain u1 where r:
    "machine c1 = Some m" "a \<noteq> []" "get_state m a \<noteq> None" "Session_attr (db_adapter c1)"
    "query_one (db_adapter c1) (eff_id eff_user) = Some u1" "state u1 = Some a"
    by (auto simp: at_rest_def)
  let ?u = "u1\<lparr>state := Some a\<rparr>"
  let ?c = "c1\<lparr>user := Some ?u, db_adapter := db_adapter c1, model_state := Some a\<rparr>"
  have sf: "start_if_falsy (state u1) = a"
    using r(2,6) by (simp add: start_if_falsy_def)
  have lb: "load_and_bind now c1 eff_user = Done ?c"
    using get_user_existing[OF r(4,5), of now] r(1,3) sf
    by (auto simp: load_and_bind_def Let_def bind_machine_def)
  from assms(3) obtain t rest where p:
    "filter (\<lambda>p. re_match p PASSING_TRIGGER) (get_triggers m (Some a)) = [PASSING_TRIGGER]"
    "candidates m PASSING_TRIGGER a = t # rest" "unguarded t" "dest t = b"
    "b \<noteq> []" "b \<in> set (state_names m)"
    by (auto simp: passes_through_def split: list.splits)
  from p(3) have ev: "eval_conditions t (run_callbacks (prepare t) ?u)"
    by (simp add: unguarded_def eval_conditions_def)
  from p(6) have regb: "get_state m b \<noteq> None" using get_state_names[of m b] by blast
  from Machine_trigger_first[OF p(2) ev _ r(3)] p(4,5) regb
  obtain u' where mt: "Machine_trigger m PASSING_TRIGGER a ?u = Done (b, u')" by auto
  have hop: "dispatch_hop re_match now c1 eff_user PASSING_TRIGGER = fire_and_commit ?c PASSING_TRIGGER"
    using lb r(1) p(1)
    by (simp add: dispatch_hop_def outgoing_triggers_Some collect_matches_filter resolve_trigger_def)
  have fc: "fire_and_commit ?c PASSING_TRIGGER =
           Done (?c\<lparr>model_state := Some b, user := Some (u'\<lparr>state := Some b\<rparr>),
                    db_adapter := flush (u'\<lparr>state := Some b\<rparr>) (db_adapter ?c)\<rparr>)"
    by (rule fire_and_commit_ok[OF _ _ _ _ mt]) (use r in simp_all)
  from Machine_trigger_keeps_id[OF assms(2), of PASSING_TRIGGER a ?u] mt query_one_id[OF r(5)]
  have id: "user_id u' = eff_id eff_user" by simp
  show ?thesis
    unfolding hop fc
    using r id p(5) regb by (simp add: at_rest_def flush_fields query_flush_id)
qed

lemma Done_world: "raised r = None \<Longrightarrow> r = Done (world r)"
  by (cases r) auto

lemma Some_the: "\<not> Option.is_none x \<Longrightarrow> x = Some (the x)"
  by (cases x) auto

lemma hd_tl: "xs \<noteq> [] \<Longrightarrow> xs = hd xs # tl xs"
  by simp

section \<open>The state registry\<close>

text \<open>
  C8. \<open>add_state\<close> and \<open>add_transition\<close> each append exactly one descriptor to their own
  list, whatever the arguments are (in particular whatever source and destination a
  transition names), and leave every other field of the object as it was. Both are total:
  there is no failing branch.
\<close>

theorem registration_appends_one:
  "states (add_state c n enter exit) =
     states c @ [\<lparr>state_name = n, on_enter = enter, on_exit = exit\<rparr>]
   \<and> transitions (add_state c n enter exit) = transitions c
   \<and> machine (add_state c n enter exit) = machine c
   \<and> model_state (add_state c n enter exit) = model_state c
   \<and> db_adapter (add_state c n enter exit) = db_adapter c
   \<and> user (add_state c n enter exit) = user c
   \<and> transitions (add_transition c trg src dst conds unl bef aft prep) =
       transitions c @ [\<lparr>trigger = trg, source = src, dest = dst, conditions = conds,
                         unless = unl, before = bef, after = aft, prepare = prep\<rparr>]
   \<and> states (add_transition c trg src dst conds unl bef aft prep) = states c
   \<and> machine (add_transition c trg src dst conds unl bef aft prep) = machine c
   \<and> model_state (add_transition c trg src dst conds unl bef aft prep) = model_state c
   \<and> db_adapter (add_transition c trg src dst conds unl bef aft prep) = db_adapter c
   \<and> user (add_transition c trg src dst conds unl bef aft prep) = user c"
  by (simp add: add_state_def add_transition_def)

section \<open>Trigger resolution\<close>



text \<open>
  C1. Once the user is loaded and the machine bound, a raw signal that matches two or more
  of the triggers leaving the current state makes the handler raise the error of line 85,
  which carries the raw signal and the list of all matched patterns. The object is left
  as binding left it: its adapter, with table and write history, is the one the dispatch
  started with (nothing was committed), and the machine stands at the state of the loaded
  record (nothing was fired).
\<close>

theorem ambiguous_trigger_aborts:
  assumes "load_and_bind now c eff_user = Done c1"
    and "outgoing_triggers c1 = Inr triggers"
    and "2 \<le> length (filter (\<lambda>p. re_match p trg) triggers)"
  shows "handler (Suc depth) re_match now c eff_user trg =
           Raised (ValueError_matched trg (filter (\<lambda>p. re_match p trg) triggers)) c1
         \<and> db_adapter c1 = db_adapter c
         \<and> map_option state (user c1) = Some (model_state c1)"
proof -
  from assms(1) obtain loaded m s where
    "db_adapter c1 = db_adapter c" "model_state c1 = Some s" "user c1 = Some (loaded\<lparr>state := Some s\<rparr>)"
    by (rule load_and_bind_Done)
  moreover have "dispatch_hop re_match now c eff_user trg =
      Raised (ValueError_matched trg (filter (\<lambda>p. re_match p trg) triggers)) c1"
  proof -
    let ?xs = "filter (\<lambda>p. re_match p trg) triggers"
    from assms(3) have "length ?xs \<noteq> 0" "length ?xs \<noteq> 1" by auto
    then have "resolve_trigger trg ?xs = Inl (ValueError_matched trg ?xs)"
      unfolding resolve_trigger_def by simp
    with assms(1,2) show ?thesis
      by (simp add: dispatch_hop_def collect_matches_filter)
  qed
  ultimately show ?thesis by simp
qed

text \<open>
  C1, on the sample bot: a new user sends \<open>stop\<close>, which both \<open>stop\<close> and \<open>st\<close> match.
\<close>

theorem ambiguous_trigger_aborts_witness:
  "handler (Suc 0) re_match_literal 0 (demo_bot []) ann ''stop'' =
     Raised (ValueError_matched ''stop'' [''stop'', ''st''])
       (world (load_and_bind 0 (demo_bot []) ann))
   \<and> db_adapter (world (load_and_bind 0 (demo_bot []) ann)) = db_adapter (demo_bot [])
   \<and> model_state (world (load_and_bind 0 (demo_bot []) ann)) = Some ''__start__''"
proof -
  let ?c1 = "world (load_and_bind 0 (demo_bot []) ann)"
  let ?ts = "[''to___start__'', ''to_a'', ''to_b'', ''to_c'', ''hello'', ''stop'', ''st'', ''__free_text__'']"
  have lb: "load_and_bind 0 (demo_bot []) ann = Done ?c1"
    by (rule Done_world) code_simp
  have og: "outgoing_triggers ?c1 = Inr ?ts"
    by code_simp
  have f: "filter (\<lambda>p. re_match_literal p ''stop'') ?ts = [''stop'', ''st'']"
    by code_simp
  have len: "2 \<le> length (filter (\<lambda>p. re_match_literal p ''stop'') ?ts)"
    unfolding f by simp
  have ms: "model_state ?c1 = Some ''__start__''"
    by code_simp
  from ambiguous_trigger_aborts[where re_match = re_match_literal and trg = "''stop''"
      and depth = 0, OF lb og len] f ms show ?thesis
    by simp
qed

text \<open>
  C2 fails as stated. In the sample bot a user in state \<open>c\<close> sends \<open>go\<close>: exactly one
  outgoing pattern matches, its only transition leads to \<open>a\<close>, the dispatch completes, and
  the machine still stands at \<open>c\<close>, because the condition of the transition does not hold.
\<close>

theorem guard_blocks_unique_match:
  "matched_in_dispatch re_match_literal 0 (demo_bot [ann_row (Some ''c'')]) ann ''go'' = [''go'']
   \<and> map dest (candidates
         (the (machine (world (handler 5 re_match_literal 0 (demo_bot [ann_row (Some ''c'')]) ann ''go''))))
         ''go'' ''c'') = [''a'']
   \<and> raised (handler 5 re_match_literal 0 (demo_bot [ann_row (Some ''c'')]) ann ''go'') = None
   \<and> model_state (world (handler 5 re_match_literal 0 (demo_bot [ann_row (Some ''c'')]) ann ''go''))
       = Some ''c''"
  by code_simp

text \<open>
  C2, amended. If exactly one trigger leaving the current state matches the raw signal, the
  hop fires that trigger. If, moreover, the first transition of that trigger from the
  current state passes its guards and leads to a registered state with a non-empty name,
  the hop completes, the machine stands at that destination, and the committed record
  carries it.
\<close>

theorem unique_match_fires:
  assumes "load_and_bind now c eff_user = Done c1"
    and "machine c1 = Some m" and "model_state c1 = Some s" and "user c1 = Some u"
    and "filter (\<lambda>q. re_match q trg) (get_triggers m (Some s)) = [p]"
  shows "dispatch_hop re_match now c eff_user trg = fire_and_commit c1 p
       \<and> (\<forall>t rest. candidates m p s = t # rest
              \<and> eval_conditions t (run_callbacks (prepare t) u)
              \<and> dest t \<noteq> [] \<and> dest t \<in> set (state_names m) \<longrightarrow>
            (\<exists>c2 u2. dispatch_hop re_match now c eff_user trg = Done c2
               \<and> model_state c2 = Some (dest t)
               \<and> user c2 = Some u2 \<and> state u2 = Some (dest t)
               \<and> query_one (db_adapter c2) (user_id u2) = Some u2))"
proof -
  have hop: "dispatch_hop re_match now c eff_user trg = fire_and_commit c1 p"
    using assms
    by (simp add: dispatch_hop_def outgoing_triggers_Some collect_matches_filter resolve_trigger_def)
  from assms(1) obtain loaded m' s' where l: "machine c1 = Some m'" "model_state c1 = Some s'"
    "get_state m' s' \<noteq> None" "db_adapter c1 = db_adapter c" "Session_attr (db_adapter c)"
    by (rule load_and_bind_Done)
  with assms have reg: "get_state m s \<noteq> None" and sa: "Session_attr (db_adapter c1)" by auto
  have "\<exists>c2 u2. dispatch_hop re_match now c eff_user trg = Done c2
               \<and> model_state c2 = Some (dest t)
               \<and> user c2 = Some u2 \<and> state u2 = Some (dest t)
               \<and> query_one (db_adapter c2) (user_id u2) = Some u2"
    if "candidates m p s = t # rest" "eval_conditions t (run_callbacks (prepare t) u)"
      "dest t \<noteq> []" "dest t \<in> set (state_names m)" for t rest
  proof -
    from that(4) have "get_state m (dest t) \<noteq> None" using get_state_names[of m "dest t"] by blast
    from Machine_trigger_first[OF that(1,2,3) reg this]
    obtain u' where "Machine_trigger m p s u = Done (dest t, u')" by auto
    from fire_and_commit_ok[OF assms(2,3,4) sa this] hop
    show ?thesis by (simp add: query_flush_id)
  qed
  with hop show ?thesis by blast
qed

text \<open>
  C2, amended, on the sample bot: a new user sends \<open>hello\<close> and reaches \<open>a\<close>.
\<close>

theorem unique_match_fires_witness:
  "dispatch_hop re_match_literal 0 (demo_bot []) ann ''hello'' =
     fire_and_commit (world (load_and_bind 0 (demo_bot []) ann)) ''hello''
   \<and> raised (dispatch_hop re_match_literal 0 (demo_bot []) ann ''hello'') = None
   \<and> model_state (world (dispatch_hop re_match_literal 0 (demo_bot []) ann ''hello'')) = Some ''a''"
proof -
  let ?c1 = "world (load_and_bind 0 (demo_bot []) ann)"
  let ?m = "the (machine ?c1)"
  let ?u = "the (user ?c1)"
  let ?cs = "candidates ?m ''hello'' ''__start__''"
  have lb: "load_and_bind 0 (demo_bot []) ann = Done ?c1"
    by (rule Done_world) code_simp
  have m: "machine ?c1 = Some ?m" by (rule Some_the) code_simp
  have u: "user ?c1 = Some ?u" by (rule Some_the) code_simp
  have ms: "model_state ?c1 = Some ''__start__''" by code_simp
  have f: "filter (\<lambda>q. re_match_literal q ''hello'') (get_triggers ?m (Some ''__start__'')) = [''hello'']"
    by code_simp
  have cs: "?cs = hd ?cs # tl ?cs" by (rule hd_tl) code_simp
  have ev: "eval_conditions (hd ?cs) (run_callbacks (prepare (hd ?cs)) ?u)" by code_simp
  have d: "dest (hd ?cs) = ''a''" by code_simp
  have r: "''a'' \<in> set (state_names ?m)" by code_simp
  note inst = unique_match_fires[where re_match = re_match_literal and trg = "''hello''",
      OF lb m ms u f]
  from inst have 1: "dispatch_hop re_match_literal 0 (demo_bot []) ann ''hello'' =
     fire_and_commit ?c1 ''hello''" by simp
  from inst cs ev d r obtain c2 where
    "dispatch_hop re_match_literal 0 (demo_bot []) ann ''hello'' = Done c2"
    "model_state c2 = Some ''a''"
    by (metis list.distinct(1))
  then have 2: "raised (dispatch_hop re_match_literal 0 (demo_bot []) ann ''hello'') = None
   \<and> model_state (world (dispatch_hop re_match_literal 0 (demo_bot []) ann ''hello'')) = Some ''a''"
    by simp
  from 1 2 show ?thesis by blast
qed

text \<open>
  C3 fails as stated. In the sample bot a user in state \<open>c\<close> sends \<open>zzz\<close>: no outgoing pattern
  matches and \<open>c\<close> has no free-text transition, yet the dispatch does not complete: firing
  the free-text trigger raises, and nothing is written.
\<close>

theorem free_text_without_transition_raises:
  "matched_in_dispatch re_match_literal 0 (demo_bot [ann_row (Some ''c'')]) ann ''zzz'' = []
   \<and> FREE_TEXT_TRIGGER \<notin> set (get_triggers
         (the (machine (world (handler 5 re_match_literal 0 (demo_bot [ann_row (Some ''c'')]) ann ''zzz''))))
         (Some ''c''))
   \<and> raised (handler 5 re_match_literal 0 (demo_bot [ann_row (Some ''c'')]) ann ''zzz'')
       = Some (MachineError ''__free_text__'' ''c'')
   \<and> writes (db_adapter (world (handler 5 re_match_literal 0 (demo_bot [ann_row (Some ''c'')]) ann ''zzz'')))
       = []"
  by code_simp

text \<open>
  C3, amended. If no trigger leaving the current state matches the raw signal, the resolved
  trigger is the free-text trigger, and the hop fires it. If the current state has no
  free-text transition, firing raises: \<open>MachineError\<close> if some state has one,
  \<open>AttributeError\<close> if none has. The handler ends there, before the commit: the adapter is
  the one the dispatch started with and the machine stands at the state of the loaded
  record.
\<close>

theorem unmatched_signal_fires_free_text:
  assumes "load_and_bind now c eff_user = Done c1"
    and "machine c1 = Some m" and "model_state c1 = Some s"
    and "filter (\<lambda>q. re_match q trg) (get_triggers m (Some s)) = []"
  shows "resolve_trigger trg (collect_matches re_match (get_triggers m (Some s)) trg []) =
           Inr FREE_TEXT_TRIGGER
       \<and> dispatch_hop re_match now c eff_user trg = fire_and_commit c1 FREE_TEXT_TRIGGER
       \<and> (FREE_TEXT_TRIGGER \<notin> set (get_triggers m (Some s)) \<longrightarrow>
            handler (Suc depth) re_match now c eff_user trg =
              Raised (if FREE_TEXT_TRIGGER \<in> set (map fst (events m))
                      then MachineError FREE_TEXT_TRIGGER s
                      else AttributeError FREE_TEXT_TRIGGER) c1
            \<and> db_adapter c1 = db_adapter c
            \<and> map_option state (user c1) = Some (model_state c1))"
proof -
  have r: "resolve_trigger trg (collect_matches re_match (get_triggers m (Some s)) trg []) =
           Inr FREE_TEXT_TRIGGER"
    using assms(4) by (simp add: collect_matches_filter resolve_trigger_def)
  have hop: "dispatch_hop re_match now c eff_user trg = fire_and_commit c1 FREE_TEXT_TRIGGER"
    using assms(1,2,3) r by (simp add: dispatch_hop_def outgoing_triggers_Some)
  from assms(1) obtain loaded m' s' where l: "machine c1 = Some m'" "model_state c1 = Some s'"
    "user c1 = Some (loaded\<lparr>state := Some s'\<rparr>)"
    "get_state m' s' \<noteq> None" "db_adapter c1 = db_adapter c"
    by (rule load_and_bind_Done)
  with assms have reg: "get_state m s \<noteq> None" and u: "user c1 = Some (loaded\<lparr>state := Some s\<rparr>)"
    by auto
  have "handler (Suc depth) re_match now c eff_user trg =
              Raised (if FREE_TEXT_TRIGGER \<in> set (map fst (events m))
                      then MachineError FREE_TEXT_TRIGGER s
                      else AttributeError FREE_TEXT_TRIGGER) c1"
    if "FREE_TEXT_TRIGGER \<notin> set (get_triggers m (Some s))"
  proof -
    from that candidates_in_triggers[of m FREE_TEXT_TRIGGER s]
    have c: "candidates m FREE_TEXT_TRIGGER s = []" by auto
    have "Machine_trigger m FREE_TEXT_TRIGGER s (loaded\<lparr>state := Some s\<rparr>) =
            Raised (if FREE_TEXT_TRIGGER \<in> set (map fst (events m))
                      then MachineError FREE_TEXT_TRIGGER s
                      else AttributeError FREE_TEXT_TRIGGER) (s, loaded\<lparr>state := Some s\<rparr>)"
    proof (cases "map_of (events m) FREE_TEXT_TRIGGER")
      case None
      then have "FREE_TEXT_TRIGGER \<notin> set (map fst (events m))"
        by (simp add: map_of_eq_None_iff)
      with None show ?thesis by (simp add: Machine_trigger_def)
    next
      case (Some trs)
      then have "(FREE_TEXT_TRIGGER, trs) \<in> set (events m)" by (rule map_of_SomeD)
      then have "FREE_TEXT_TRIGGER \<in> set (map fst (events m))" by force
      with Some c reg show ?thesis by (auto simp: Machine_trigger_def)
    qed
    from fire_and_commit_Raised[OF assms(2,3) u this] hop show ?thesis by simp
  qed
  with r hop l u assms(3) show ?thesis by simp
qed

text \<open>
  C3, amended, on the sample bot: a user in state \<open>c\<close> sends \<open>zzz\<close>.
\<close>

theorem unmatched_signal_fires_free_text_witness:
  "handler (Suc 0) re_match_literal 0 (demo_bot [ann_row (Some ''c'')]) ann ''zzz'' =
     Raised (MachineError ''__free_text__'' ''c'')
       (world (load_and_bind 0 (demo_bot [ann_row (Some ''c'')]) ann))
   \<and> db_adapter (world (load_and_bind 0 (demo_bot [ann_row (Some ''c'')]) ann))
       = db_adapter (demo_bot [ann_row (Some ''c'')])"
proof -
  let ?c = "demo_bot [ann_row (Some ''c'')]"
  let ?c1 = "world (load_and_bind 0 ?c ann)"
  let ?m = "the (machine ?c1)"
  have lb: "load_and_bind 0 ?c ann = Done ?c1"
    by (rule Done_world) code_simp
  have m: "machine ?c1 = Some ?m" by (rule Some_the) code_simp
  have ms: "model_state ?c1 = Some ''c''" by code_simp
  have f: "filter (\<lambda>q. re_match_literal q ''zzz'') (get_triggers ?m (Some ''c'')) = []"
    by code_simp
  have n: "FREE_TEXT_TRIGGER \<notin> set (get_triggers ?m (Some ''c''))" by code_simp
  have e: "FREE_TEXT_TRIGGER \<in> set (map fst (events ?m))" by code_simp
  from unmatched_signal_fires_free_text[where re_match = re_match_literal and trg = "''zzz''"
      and depth = 0, OF lb m ms f] n e
  show ?thesis by (simp add: FREE_TEXT_TRIGGER_def del: handler.simps)
qed

section \<open>Loading and persisting the user\<close>

text \<open>
  C7 fails as stated. For an id the table does not hold, \<open>get_user\<close> returns a record whose
  state is \<open>None\<close>, not the start state.
\<close>

theorem get_user_leaves_state_unset:
  "query_one (demo_db []) (eff_id ann) = None
   \<and> map_sum id (state \<circ> fst) (get_user (demo_db []) ann 100) = Inr None
   \<and> Some START_STATE_NAME \<noteq> (None :: string option)"
  by code_simp

text \<open>
  C7, amended. With a session factory and a user class that can be built without
  arguments, \<open>get_user\<close> for an id the table does not hold returns the fresh instance with
  the id, the four profile fields copied from the inbound user and the creation time set;
  the state field is as the class's constructor left it, and the table is not written.
  The start state is what line 62 of the handler makes of a falsy state afterwards.
\<close>

theorem get_user_new_user:
  assumes "Session_attr db" and "user_class db = Custom_User fresh"
    and "query_one db (eff_id eff_user) = None"
  shows "get_user db eff_user now =
           Inr (fresh\<lparr>user_id := eff_id eff_user,
                      first_name := eff_first_name eff_user,
                      last_name := eff_last_name eff_user,
                      name := eff_name eff_user,
                      username := eff_username eff_user,
                      created_at := Some now\<rparr>, db)
       \<and> map_sum id (state \<circ> fst) (get_user db eff_user now) = Inr (state fresh)
       \<and> (falsy (state fresh) \<longrightarrow>
            map_sum id (start_if_falsy \<circ> state \<circ> fst) (get_user db eff_user now) = Inr START_STATE_NAME)"
  using assms
  by (auto simp: get_user_def new_instance_def Let_def Session_add_def Session_expunge_def
      Session_commit_def falsy_def start_if_falsy_def split: option.splits)

text \<open>
  C7, amended, on the sample adapter.
\<close>

theorem get_user_new_user_witness:
  "get_user (demo_db []) ann 100 =
     Inr (\<lparr>user_id = 7, state = None, first_name = Some ''Ann'', last_name = None,
           name = Some ''@ann'', username = Some ''ann'', created_at = Some 100\<rparr>, demo_db [])
   \<and> map_sum id (start_if_falsy \<circ> state \<circ> fst) (get_user (demo_db []) ann 100) = Inr ''__start__''"
proof -
  have s: "Session_attr (demo_db [])" by code_simp
  have c: "user_class (demo_db []) = Custom_User blank_user" by code_simp
  have q: "query_one (demo_db []) (eff_id ann) = None" by code_simp
  have f: "falsy (state blank_user)" by code_simp
  from get_user_new_user[OF s c q, of 100] f show ?thesis
    by (simp add: blank_user_def ann_def START_STATE_NAME_def start_if_falsy_def)
qed

text \<open>
  C9. Whatever record \<open>get_user\<close> returns, the name the machine is bound to is the start
  state if the record's state is \<open>None\<close> or empty, and the record's state otherwise; it is
  never the empty string. If binding succeeds the machine stands at that name and the
  record carries it.
\<close>

theorem falsy_state_defaults_to_start:
  assumes "get_user (db_adapter c) eff_user now = Inr (loaded, db)"
  shows "(falsy (state loaded) \<longrightarrow> start_if_falsy (state loaded) = START_STATE_NAME)
       \<and> (\<not> falsy (state loaded) \<longrightarrow> Some (start_if_falsy (state loaded)) = state loaded)
       \<and> start_if_falsy (state loaded) \<noteq> []
       \<and> load_and_bind now c eff_user =
           bind_machine (c\<lparr>user := Some (loaded\<lparr>state := Some (start_if_falsy (state loaded))\<rparr>),
                           db_adapter := db\<rparr>)
             (start_if_falsy (state loaded))
       \<and> (\<forall>c1. load_and_bind now c eff_user = Done c1 \<longrightarrow>
             model_state c1 = Some (start_if_falsy (state loaded))
             \<and> map_option state (user c1) = Some (Some (start_if_falsy (state loaded))))"
proof -
  have 1: "falsy (state loaded) \<longrightarrow> start_if_falsy (state loaded) = START_STATE_NAME"
    by (auto simp: falsy_def start_if_falsy_def split: option.splits)
  have 2: "\<not> falsy (state loaded) \<longrightarrow> Some (start_if_falsy (state loaded)) = state loaded"
    by (auto simp: falsy_def start_if_falsy_def split: option.splits)
  have 3: "load_and_bind now c eff_user =
           bind_machine (c\<lparr>user := Some (loaded\<lparr>state := Some (start_if_falsy (state loaded))\<rparr>),
                           db_adapter := db\<rparr>)
             (start_if_falsy (state loaded))"
    using assms by (simp add: load_and_bind_def Let_def)
  have 4: "model_state c1 = Some (start_if_falsy (state loaded))
             \<and> map_option state (user c1) = Some (Some (start_if_falsy (state loaded)))"
    if "load_and_bind now c eff_user = Done c1" for c1
    using that unfolding 3 by (auto simp: bind_machine_def split: option.splits)
  from 1 2 3 4 show ?thesis by (simp add: start_if_falsy_nonempty)
qed

text \<open>
  C9, on the sample bot: the stored row of the user has the empty string as its state.
\<close>

theorem falsy_state_defaults_to_start_witness:
  "raised (load_and_bind 0 (demo_bot [ann_row (Some [])]) ann) = None
   \<and> model_state (world (load_and_bind 0 (demo_bot [ann_row (Some [])]) ann)) = Some ''__start__''
   \<and> map_option state (user (world (load_and_bind 0 (demo_bot [ann_row (Some [])]) ann)))
       = Some (Some ''__start__'')"
proof -
  let ?c = "demo_bot [ann_row (Some [])]"
  have g: "get_user (db_adapter ?c) ann 0 = Inr (ann_row (Some []), db_adapter ?c)" by code_simp
  have r: "raised (load_and_bind 0 ?c ann) = None" by code_simp
  then have d: "load_and_bind 0 ?c ann = Done (world (load_and_bind 0 ?c ann))" by (rule Done_world)
  have f: "falsy (state (ann_row (Some [])))" by code_simp
  note inst = falsy_state_defaults_to_start[OF g]
  from inst f have a: "start_if_falsy (state (ann_row (Some []))) = START_STATE_NAME"
    by blast
  from inst d have b: "model_state (world (load_and_bind 0 ?c ann)) =
        Some (start_if_falsy (state (ann_row (Some []))))
      \<and> map_option state (user (world (load_and_bind 0 ?c ann))) =
        Some (Some (start_if_falsy (state (ann_row (Some [])))))"
    by blast
  from a b r show ?thesis
    by (simp add: START_STATE_NAME_def)
qed

text \<open>
  C5. A hop that completes commits once: the write history grows by exactly one row, the
  user record, whose state field is the state the machine stands at after firing; the row
  is then the one stored under its id. This does not depend on whether a transition fired.
\<close>

theorem commit_once_per_hop:
  assumes "dispatch_hop re_match now c eff_user trg = Done c2"
  shows "\<exists>u. user c2 = Some u \<and> state u = model_state c2
           \<and> writes (db_adapter c2) = writes (db_adapter c) @ [u]
           \<and> table (db_adapter c2) = upsert u (table (db_adapter c))
           \<and> query_one (db_adapter c2) (user_id u) = Some u"
  using assms
  by (elim dispatch_hop_Done) (simp add: flush_fields query_flush_id)

text \<open>
  C5, on the sample bot: a user in state \<open>c\<close> sends \<open>go\<close>, no transition passes its guard,
  and the unchanged state is committed once.
\<close>

theorem commit_once_per_hop_witness:
  "raised (dispatch_hop re_match_literal 0 (demo_bot [ann_row (Some ''c'')]) ann ''go'') = None
   \<and> model_state (world (dispatch_hop re_match_literal 0 (demo_bot [ann_row (Some ''c'')]) ann ''go''))
       = Some ''c''
   \<and> map state (writes (db_adapter
         (world (dispatch_hop re_match_literal 0 (demo_bot [ann_row (Some ''c'')]) ann ''go''))))
       = [Some ''c'']"
proof -
  let ?c = "demo_bot [ann_row (Some ''c'')]"
  let ?h = "dispatch_hop re_match_literal 0 ?c ann ''go''"
  have r: "raised ?h = None" by code_simp
  then have hop: "?h = Done (world ?h)" by (rule Done_world)
  have ms: "model_state (world ?h) = Some ''c''" by code_simp
  have w: "writes (db_adapter ?c) = []" by code_simp
  from commit_once_per_hop[OF hop] ms w r show ?thesis by auto
qed

section \<open>Pass-through chains\<close>

text \<open>
  C6 fails as stated. In the sample bot \<open>a\<close> passes through to \<open>b\<close>, \<open>b\<close> to \<open>c\<close>, and \<open>c\<close> has
  no pass-through. A user whose stored state is \<open>a\<close> sends \<open>hello\<close>: no pattern leaving \<open>a\<close>
  matches, \<open>a\<close> has no free-text transition, the dispatch raises and the stored state stays
  \<open>a\<close>. The same user sends \<open>back\<close>: the dispatch completes with the stored state at the
  start state.
\<close>

theorem chain_not_reached_from_rest_in_A:
  "passes_through re_match_literal demo_machine ''a'' ''b''
   \<and> passes_through re_match_literal demo_machine ''b'' ''c''
   \<and> PASSING_TRIGGER \<notin> set (get_triggers demo_machine (Some ''c''))
   \<and> raised (handler 9 re_match_literal 0 (demo_bot [ann_row (Some ''a'')]) ann ''hello'')
       = Some (MachineError ''__free_text__'' ''a'')
   \<and> map state (table (db_adapter
        (world (handler 9 re_match_literal 0 (demo_bot [ann_row (Some ''a'')]) ann ''hello''))))
       = [Some ''a'']
   \<and> raised (handler 9 re_match_literal 0 (demo_bot [ann_row (Some ''a'')]) ann ''back'') = None
   \<and> map state (table (db_adapter
        (world (handler 9 re_match_literal 0 (demo_bot [ann_row (Some ''a'')]) ann ''back''))))
       = [Some ''__start__'']"
  by code_simp

text \<open>
  C6, amended. After a hop that completes, the handler recurses with the pass-through
  trigger exactly when that trigger leaves the state reached, and returns otherwise. If
  the hop of the inbound event leaves the machine at \<open>a\<close>, with an unconditional
  pass-through from \<open>a\<close> to \<open>b\<close> and from \<open>b\<close> to \<open>d\<close>, no pass-through trigger leaving
  \<open>d\<close>, and callbacks that keep the record's id, then the handler, given depth for three
  hops, completes with the machine at \<open>d\<close> and the stored state \<open>d\<close>; the three hops have
  committed \<open>a\<close>, \<open>b\<close> and \<open>d\<close>, in this order, from the one inbound event.
\<close>

theorem pass_through_chain:
  assumes "dispatch_hop re_match now c eff_user trg = Done c1"
    and "machine c1 = Some m" and "model_state c1 = Some a"
  shows "handler (Suc depth) re_match now c eff_user trg =
           (if PASSING_TRIGGER \<in> set (get_triggers m (Some a))
            then handler depth re_match now c1 eff_user PASSING_TRIGGER else Done c1)
       \<and> (Machine_keeps_id m \<and> passes_through re_match m a b \<and> passes_through re_match m b d
            \<and> PASSING_TRIGGER \<notin> set (get_triggers m (Some d)) \<longrightarrow>
          (\<exists>c3. handler (Suc (Suc (Suc depth))) re_match now c eff_user trg = Done c3
             \<and> model_state c3 = Some d
             \<and> map_option state (query_one (db_adapter c3) (eff_id eff_user)) = Some (Some d)
             \<and> map state (writes (db_adapter c3)) =
                 map state (writes (db_adapter c)) @ [Some a, Some b, Some d]))"
proof -
  have step: "handler (Suc depth) re_match now c eff_user trg =
           (if PASSING_TRIGGER \<in> set (get_triggers m (Some a))
            then handler depth re_match now c1 eff_user PASSING_TRIGGER else Done c1)"
    using handler_step[OF assms(1,2)] assms(3) by simp
  have chain: "\<exists>c3. handler (Suc (Suc (Suc depth))) re_match now c eff_user trg = Done c3
             \<and> model_state c3 = Some d
             \<and> map_option state (query_one (db_adapter c3) (eff_id eff_user)) = Some (Some d)
             \<and> map state (writes (db_adapter c3)) =
                 map state (writes (db_adapter c)) @ [Some a, Some b, Some d]"
    if k: "Machine_keeps_id m" and ab: "passes_through re_match m a b"
      and bd: "passes_through re_match m b d"
      and stop: "PASSING_TRIGGER \<notin> set (get_triggers m (Some d))"
  proof -
    from dispatch_hop_at_rest[OF assms(1,2) k] assms(3) obtain u1 where
      r1: "at_rest c1 m eff_user a" and w1: "writes (db_adapter c1) = writes (db_adapter c) @ [u1]"
      "state u1 = Some a" by auto
    from pass_hop[OF r1 k ab, of now] obtain c2 u2 where
      h2: "dispatch_hop re_match now c1 eff_user PASSING_TRIGGER = Done c2"
      and r2: "at_rest c2 m eff_user b"
      and w2: "writes (db_adapter c2) = writes (db_adapter c1) @ [u2]" "state u2 = Some b" by auto
    from pass_hop[OF r2 k bd, of now] obtain c3 u3 where
      h3: "dispatch_hop re_match now c2 eff_user PASSING_TRIGGER = Done c3"
      and r3: "at_rest c3 m eff_user d"
      and w3: "writes (db_adapter c3) = writes (db_adapter c2) @ [u3]" "state u3 = Some d" by auto
    from r2 r3 have m2: "machine c2 = Some m" "model_state c2 = Some b"
      and m3: "machine c3 = Some m" "model_state c3 = Some d"
      by (auto simp: at_rest_def)
    have "handler (Suc depth) re_match now c2 eff_user PASSING_TRIGGER = Done c3"
      using handler_step[OF h3 m3(1), of depth] m3(2) stop by simp
    then have "handler (Suc (Suc depth)) re_match now c1 eff_user PASSING_TRIGGER = Done c3"
      using handler_step[OF h2 m2(1), of "Suc depth"] m2(2) passes_through_trigger[OF bd] by simp
    then have "handler (Suc (Suc (Suc depth))) re_match now c eff_user trg = Done c3"
      using handler_step[OF assms(1,2), of "Suc (Suc depth)"] assms(3) passes_through_trigger[OF ab]
      by simp
    with r3 w1 w2 w3 show ?thesis by (simp add: at_rest_def)
  qed
  from step chain show ?thesis by blast
qed

text \<open>
  C6, amended, on the sample bot: a new user sends \<open>hello\<close>, which leads to \<open>a\<close>; the chain
  ends in \<open>c\<close>.
\<close>

theorem pass_through_chain_witness:
  "raised (handler 3 re_match_literal 0 (demo_bot []) ann ''hello'') = None
   \<and> model_state (world (handler 3 re_match_literal 0 (demo_bot []) ann ''hello'')) = Some ''c''
   \<and> map state (table (db_adapter (world (handler 3 re_match_literal 0 (demo_bot []) ann ''hello''))))
       = [Some ''c'']
   \<and> map state (writes (db_adapter (world (handler 3 re_match_literal 0 (demo_bot []) ann ''hello''))))
       = [Some ''a'', Some ''b'', Some ''c'']"
proof -
  let ?c = "demo_bot []"
  let ?h = "dispatch_hop re_match_literal 0 ?c ann ''hello''"
  let ?m = "the (machine (world ?h))"
  have hop: "?h = Done (world ?h)" by (rule Done_world) code_simp
  have m: "machine (world ?h) = Some ?m" by (rule Some_the) code_simp
  have ms: "model_state (world ?h) = Some ''a''" by code_simp
  have k: "Machine_keeps_id ?m" by (rule no_callbacks_keeps_id) code_simp
  have ab: "passes_through re_match_literal ?m ''a'' ''b''" by code_simp
  have bc: "passes_through re_match_literal ?m ''b'' ''c''" by code_simp
  have stop: "PASSING_TRIGGER \<notin> set (get_triggers ?m (Some ''c''))" by code_simp
  have w: "writes (db_adapter ?c) = []" by code_simp
  have three: "Suc (Suc (Suc 0)) = 3" by simp
  from pass_through_chain[where re_match = re_match_literal and b = "''b''" and d = "''c''"
      and depth = 0, OF hop m ms] k ab bc stop
  obtain c3 where c3: "handler (Suc (Suc (Suc 0))) re_match_literal 0 ?c ann ''hello'' = Done c3"
    "model_state c3 = Some ''c''"
    "map_option state (query_one (db_adapter c3) (eff_id ann)) = Some (Some ''c'')"
    "map state (writes (db_adapter c3)) = map state (writes (db_adapter ?c)) @ [Some ''a'', Some ''b'', Some ''c'']"
    by blast
  have t: "map state (table (db_adapter (world (handler 3 re_match_literal 0 ?c ann ''hello''))))
       = [Some ''c'']" by code_simp
  from c3 w t show ?thesis unfolding three by simp
qed

text \<open>
  C10. When a hop completes in a state that the pass-through trigger leaves, the handler
  continues with the next hop from the object the hop left, and in that object the user
  record, with the state the machine stands at, is already committed: it is the last row of
  the write history and the row stored under its id. Whatever the rest of the chain does,
  that write stays in the history.
\<close>

theorem chain_hop_persists_before_next:
  assumes "dispatch_hop re_match now c eff_user trg = Done c1"
    and "outgoing_triggers c1 = Inr triggers"
    and "PASSING_TRIGGER \<in> set triggers"
  shows "handler (Suc depth) re_match now c eff_user trg =
           handler depth re_match now c1 eff_user PASSING_TRIGGER
       \<and> (\<exists>u. user c1 = Some u \<and> state u = model_state c1
             \<and> writes (db_adapter c1) = writes (db_adapter c) @ [u]
             \<and> query_one (db_adapter c1) (user_id u) = Some u
             \<and> prefix (writes (db_adapter c) @ [u])
                 (writes (db_adapter (world (handler (Suc depth) re_match now c eff_user trg)))))"
proof -
  have h: "handler (Suc depth) re_match now c eff_user trg =
           handler depth re_match now c1 eff_user PASSING_TRIGGER"
    using assms by simp
  from assms(1) obtain u where u: "user c1 = Some u" "state u = model_state c1"
     "writes (db_adapter c1) = writes (db_adapter c) @ [u]"
     "query_one (db_adapter c1) (user_id u) = Some u"
    by (elim dispatch_hop_Done) (simp add: flush_fields query_flush_id)
  from handler_writes[of c1 depth re_match now eff_user PASSING_TRIGGER] u(3) h
  have "prefix (writes (db_adapter c) @ [u])
                 (writes (db_adapter (world (handler (Suc depth) re_match now c eff_user trg))))"
    by simp
  with h u show ?thesis by blast
qed

text \<open>
  C10, on the sample bot: a new user sends \<open>hello\<close>; state \<open>a\<close> is committed before the hop
  to \<open>b\<close> begins.
\<close>

theorem chain_hop_persists_before_next_witness:
  "handler (Suc 2) re_match_literal 0 (demo_bot []) ann ''hello'' =
     handler 2 re_match_literal 0 (world (dispatch_hop re_match_literal 0 (demo_bot []) ann ''hello''))
       ann PASSING_TRIGGER
   \<and> map state (writes (db_adapter (world (dispatch_hop re_match_literal 0 (demo_bot []) ann ''hello''))))
       = [Some ''a'']
   \<and> prefix (writes (db_adapter (world (dispatch_hop re_match_literal 0 (demo_bot []) ann ''hello''))))
        (writes (db_adapter (world (handler (Suc 2) re_match_literal 0 (demo_bot []) ann ''hello''))))"
proof -
  let ?c = "demo_bot []"
  let ?h = "dispatch_hop re_match_literal 0 ?c ann ''hello''"
  have hop: "?h = Done (world ?h)" by (rule Done_world) code_simp
  have og: "outgoing_triggers (world ?h) =
      Inr [''to___start__'', ''to_a'', ''to_b'', ''to_c'', ''__passing_trigger__'', ''back'']"
    by code_simp
  have p: "PASSING_TRIGGER \<in> set [''to___start__'', ''to_a'', ''to_b'', ''to_c'', ''__passing_trigger__'', ''back'']"
    by code_simp
  have ms: "model_state (world ?h) = Some ''a''" by code_simp
  have w: "writes (db_adapter ?c) = []" by code_simp
  from chain_hop_persists_before_next[where re_match = re_match_literal and depth = 2, OF hop og p]
    ms w
  show ?thesis by (auto simp del: handler.simps)
qed

end
